theory Spec2Isabelle
  imports Main "HOL-Library.AList" "HOL-Library.Sublist" "HOL-Library.Multiset"
begin

section \<open>JavaScript values and plain objects\<close>

text \<open>
  The two components are TypeScript/React view functions. Strings are modelled as
  \<^typ>\<open>string\<close>, a character standing for a code unit below 256; a JavaScript value that can stand in a block's \<^verbatim>\<open>outputs\<close> field is a
  \<open>jsval\<close>. An object (and an array, whose keys are its indices) is the list of its own
  enumerable properties in the order \<^verbatim>\<open>Object.entries\<close> returns them. The source
  only tests numbers for truthiness, so a number is an integer or \<open>JNaN\<close>.
\<close>

datatype jsval =
    JUndefined
  | JNull
  | JBool bool
  | JNum int
  | JNaN
  | JStr string
  | JObj "(string \<times> jsval) list"

text \<open>\<^verbatim>\<open>typeof v === 'object' && v !== null\<close>\<close>

fun isObject :: "jsval \<Rightarrow> bool" where
  "isObject (JObj kvs) = True"
| "isObject v = False"

text \<open>JavaScript truthiness, as \<^verbatim>\<open>if (v)\<close> and \<^verbatim>\<open>v && ...\<close> test it.\<close>

fun truthy :: "jsval \<Rightarrow> bool" where
  "truthy JUndefined = False"
| "truthy JNull = False"
| "truthy (JBool b) = b"
| "truthy (JNum n) = (n \<noteq> 0)"
| "truthy JNaN = False"
| "truthy (JStr s) = (s \<noteq> [])"
| "truthy (JObj kvs) = True"

text \<open>Property read \<^verbatim>\<open>v.key\<close> on a value that is already known to be truthy.\<close>

fun getProp :: "jsval \<Rightarrow> string \<Rightarrow> jsval" where
  "getProp (JObj kvs) key = (case map_of kvs key of Some v \<Rightarrow> v | None \<Rightarrow> JUndefined)"
| "getProp v key = JUndefined"

text \<open>
  A plain object created by \<^verbatim>\<open>{}\<close> and used as a dictionary is the association list of
  its own properties in creation order. A read \<^verbatim>\<open>obj[key]\<close> also sees the properties
  inherited from \<^verbatim>\<open>Object.prototype\<close>, which are all truthy, are not arrays and are not
  iterable.
\<close>

type_synonym 'v jsobject = "(string \<times> 'v) list"

definition objectPrototypeKeys :: "string list" where
  "objectPrototypeKeys =
     [''constructor'', ''__defineGetter__'', ''__defineSetter__'', ''hasOwnProperty'',
      ''__lookupGetter__'', ''__lookupSetter__'', ''isPrototypeOf'',
      ''propertyIsEnumerable'', ''toString'', ''valueOf'', ''__proto__'',
      ''toLocaleString'']"

datatype 'v property = Own 'v | Inherited | Missing

definition objGet :: "'v jsobject \<Rightarrow> string \<Rightarrow> 'v property" where
  "objGet obj key =
     (case map_of obj key of
        Some v \<Rightarrow> Own v
      | None \<Rightarrow> if key \<in> set objectPrototypeKeys then Inherited else Missing)"

text \<open>
  Own property keys are enumerated with the array indices first, in ascending numeric
  order, and then the other strings in creation order. An array index is a canonical
  decimal numeral below \<open>2^32 - 1\<close>.
\<close>

definition isDigit :: "char \<Rightarrow> bool" where
  "isDigit c = (c \<in> set ''0123456789'')"

definition natOfDigits :: "string \<Rightarrow> nat" where
  "natOfDigits s = foldl (\<lambda>n c. 10 * n + ((of_char c :: nat) - 48)) 0 s"

definition isArrayIndex :: "string \<Rightarrow> bool" where
  "isArrayIndex s =
     (s \<noteq> [] \<and> list_all isDigit s \<and> (s = ''0'' \<or> hd s \<noteq> CHR ''0'')
      \<and> natOfDigits s < 4294967295)"

definition objEntries :: "'v jsobject \<Rightarrow> (string \<times> 'v) list" where
  "objEntries obj =
     sort_key (\<lambda>kv. natOfDigits (fst kv)) (filter (\<lambda>kv. isArrayIndex (fst kv)) obj)
     @ filter (\<lambda>kv. \<not> isArrayIndex (fst kv)) obj"

datatype error = TypeError

section \<open>Settings navigation\<close>

datatype section_id = General | Environment | Account | Credentials | Apikeys | Subscription | Team

datatype icon = Settings | KeyRound | UserCircle | Key | KeySquare | CreditCard | Users

record navigationItem =
  item_id :: section_id
  item_label :: string
  item_icon :: icon
  hideInDev :: "bool option"
  requiresTeam :: "bool option"

text \<open>An optional boolean field is truthy only when it is present and true.\<close>

fun flagSet :: "bool option \<Rightarrow> bool" where
  "flagSet (Some b) = b"
| "flagSet None = False"

definition allNavigationItems :: "navigationItem list" where
  "allNavigationItems =
     [\<lparr>item_id = General, item_label = ''General'', item_icon = Settings,
        hideInDev = None, requiresTeam = None\<rparr>,
      \<lparr>item_id = Environment, item_label = ''Environment'', item_icon = KeyRound,
        hideInDev = None, requiresTeam = None\<rparr>,
      \<lparr>item_id = Account, item_label = ''Account'', item_icon = UserCircle,
        hideInDev = None, requiresTeam = None\<rparr>,
      \<lparr>item_id = Credentials, item_label = ''Credentials'', item_icon = Key,
        hideInDev = None, requiresTeam = None\<rparr>,
      \<lparr>item_id = Apikeys, item_label = ''API Keys'', item_icon = KeySquare,
        hideInDev = None, requiresTeam = None\<rparr>,
      \<lparr>item_id = Subscription, item_label = ''Subscription'', item_icon = CreditCard,
        hideInDev = Some True, requiresTeam = None\<rparr>,
      \<lparr>item_id = Team, item_label = ''Team'', item_icon = Users,
        hideInDev = Some True, requiresTeam = Some True\<rparr>]"

text \<open>The callback handed to \<^verbatim>\<open>allNavigationItems.filter\<close>, with its two early returns.\<close>

definition keepItem :: "bool \<Rightarrow> bool \<Rightarrow> navigationItem \<Rightarrow> bool" where
  "keepItem isDev isTeam item =
     (if flagSet (hideInDev item) \<and> isDev then False
      else if flagSet (requiresTeam item) \<and> \<not> isTeam then False
      else True)"

text \<open>
  \<^verbatim>\<open>navigationItems\<close> of \<^verbatim>\<open>SettingsNavigation\<close>. \<open>isDev\<close> is imported from the
  environment module; the property \<open>isTeam\<close> is optional and defaults to false.
\<close>

definition navigationItems :: "bool \<Rightarrow> bool option \<Rightarrow> navigationItem list" where
  "navigationItems isDev isTeamProp =
     (let isTeam = (case isTeamProp of None \<Rightarrow> False | Some t \<Rightarrow> t)
      in filter (keepItem isDev isTeam) allNavigationItems)"



section \<open>Output selector: the flattened output handles\<close>

record block =
  block_id :: string
  block_name :: string
  block_type :: string
  block_outputs :: jsval

record edge =
  source :: string
  target :: string

record outputHandle =
  handleId :: string
  label :: string
  blockId :: string
  blockName :: string
  blockType :: string
  path :: string

text \<open>
  \<^verbatim>\<open>name.replace(/\s+/g, '').toLowerCase()\<close>. A character of a \<^typ>\<open>string\<close> stands for
  a code unit below 256. Among these the white space of \<^verbatim>\<open>\s\<close> is tab, line feed,
  vertical tab, form feed, carriage return, space and the no-break space U+00A0, and
  \<^verbatim>\<open>toLowerCase\<close> lowers A to Z and the letters U+00C0 to U+00DE (the multiplication
  sign U+00D7 apart) by adding 32.
\<close>

definition isWhitespace :: "char \<Rightarrow> bool" where
  "isWhitespace c =
     (c \<in> set [CHR 0x09, CHR 0x0A, CHR 0x0B, CHR 0x0C, CHR 0x0D, CHR '' '', CHR 0xA0])"

definition upperCaseChars :: string where
  "upperCaseChars = ''ABCDEFGHIJKLMNOPQRSTUVWXYZ'' @
        [CHR 0xC0, CHR 0xC1, CHR 0xC2, CHR 0xC3, CHR 0xC4, CHR 0xC5, CHR 0xC6, CHR 0xC7,
         CHR 0xC8, CHR 0xC9, CHR 0xCA, CHR 0xCB, CHR 0xCC, CHR 0xCD, CHR 0xCE, CHR 0xCF,
         CHR 0xD0, CHR 0xD1, CHR 0xD2, CHR 0xD3, CHR 0xD4, CHR 0xD5, CHR 0xD6, CHR 0xD8,
         CHR 0xD9, CHR 0xDA, CHR 0xDB, CHR 0xDC, CHR 0xDD, CHR 0xDE]"

definition lowerCaseChars :: string where
  "lowerCaseChars = ''abcdefghijklmnopqrstuvwxyz'' @
        [CHR 0xE0, CHR 0xE1, CHR 0xE2, CHR 0xE3, CHR 0xE4, CHR 0xE5, CHR 0xE6, CHR 0xE7,
         CHR 0xE8, CHR 0xE9, CHR 0xEA, CHR 0xEB, CHR 0xEC, CHR 0xED, CHR 0xEE, CHR 0xEF,
         CHR 0xF0, CHR 0xF1, CHR 0xF2, CHR 0xF3, CHR 0xF4, CHR 0xF5, CHR 0xF6, CHR 0xF8,
         CHR 0xF9, CHR 0xFA, CHR 0xFB, CHR 0xFC, CHR 0xFD, CHR 0xFE]"

definition toLowerChar :: "char \<Rightarrow> char" where
  "toLowerChar c =
     (case map_of (zip upperCaseChars lowerCaseChars) c of
        Some l \<Rightarrow> l
      | None \<Rightarrow> c)"

definition normalizeName :: "string \<Rightarrow> string" where
  "normalizeName name = map toLowerChar (filter (\<lambda>c. \<not> isWhitespace c) name)"

text \<open>
  \<^verbatim>\<open>addOutput(path, outputObj, prefix)\<close> of the block \<open>b\<close> (the prefix is \<open>pre\<close>).
  The source pushes onto the shared array \<^verbatim>\<open>outputs\<close>; the model returns the handles
  pushed, in the order pushed.
\<close>

fun addOutput :: "block \<Rightarrow> string \<Rightarrow> jsval \<Rightarrow> string \<Rightarrow> outputHandle list" where
  "addOutput b p (JObj kvs) pre =
     (let fullPath = (if pre \<noteq> [] then pre @ ''.'' @ p else p)
      in concat (map (\<lambda>kv. addOutput b (fst kv) (snd kv) fullPath) kvs))"
| "addOutput b p v pre =
     (let fullPath = (if pre \<noteq> [] then pre @ ''.'' @ p else p)
      in [\<lparr>handleId = block_id b @ ''_'' @ fullPath,
           label = normalizeName (block_name b) @ ''.'' @ fullPath,
           blockId = block_id b,
           blockName = block_name b,
           blockType = block_type b,
           path = fullPath\<rparr>])"



text \<open>The body of the \<^verbatim>\<open>forEach\<close> over the blocks: the handles one block contributes.\<close>

definition blockOutputs :: "block \<Rightarrow> outputHandle list" where
  "blockOutputs b =
     (if block_type b = ''starter'' then []
      else if truthy (block_outputs b) \<and> isObject (block_outputs b) then
        (if truthy (getProp (block_outputs b) ''response'')
         then addOutput b ''response'' (getProp (block_outputs b) ''response'') []
         else [])
      else [])"

text \<open>
  \<^verbatim>\<open>workflowOutputs\<close>. The workflow identifier is a string or null; \<open>blocks\<close> is
  \<^verbatim>\<open>Object.values(blocks)\<close>, the blocks of the store in enumeration order.
\<close>

definition workflowOutputs :: "string option \<Rightarrow> block list \<Rightarrow> outputHandle list" where
  "workflowOutputs workflowId blocks =
     (case workflowId of
        None \<Rightarrow> []
      | Some w \<Rightarrow> if w = [] then [] else concat (map blockOutputs blocks))"

text \<open>
  \<^verbatim>\<open>selectedOutputDisplayName\<close>. \<open>selectedOutput\<close> is a string or null, and the empty
  string is falsy as null is; \<^verbatim>\<open>find\<close> returns the first handle with the identifier.
\<close>

definition selectedOutputDisplayName ::
    "string option \<Rightarrow> outputHandle list \<Rightarrow> string \<Rightarrow> string" where
  "selectedOutputDisplayName selectedOutput outs placeholder =
     (case selectedOutput of
        None \<Rightarrow> placeholder
      | Some s \<Rightarrow>
          if s = [] then placeholder
          else (case find (\<lambda>h. handleId h = s) outs of
                  Some output \<Rightarrow> normalizeName (blockName output) @ ''.'' @ path output
                | None \<Rightarrow> placeholder))"

text \<open>The property \<^verbatim>\<open>placeholder\<close> is optional, with a default.\<close>

definition placeholderOrDefault :: "string option \<Rightarrow> string" where
  "placeholderOrDefault p = (case p of None \<Rightarrow> ''Select output source'' | Some s \<Rightarrow> s)"

section \<open>Output selector: distances from the starter block\<close>

text \<open>
  The adjacency list is a plain object from a source identifier to the array of its
  targets. When the source names a property inherited from the prototype, the read is
  truthy, no array is stored, and the call of \<^verbatim>\<open>push\<close> on it is a TypeError.
\<close>

fun buildAdjList :: "edge list \<Rightarrow> string list jsobject \<Rightarrow> error + string list jsobject" where
  "buildAdjList [] adjList = Inr adjList"
| "buildAdjList (e # es) adjList =
     (case objGet adjList (source e) of
        Missing \<Rightarrow> buildAdjList es (AList.update (source e) [target e] adjList)
      | Own ts \<Rightarrow> buildAdjList es (AList.update (source e) (ts @ [target e]) adjList)
      | Inherited \<Rightarrow> Inl TypeError)"

text \<open>
  The assignment \<^verbatim>\<open>blockDistances[key] = distance\<close> of a number: it creates or updates
  an own property, except for the key \<^verbatim>\<open>__proto__\<close>, whose setter ignores a number.
\<close>

definition objAssign :: "string \<Rightarrow> 'v \<Rightarrow> 'v jsobject \<Rightarrow> 'v jsobject" where
  "objAssign key v obj = (if key = ''__proto__'' then obj else AList.update key v obj)"

text \<open>
  The \<^verbatim>\<open>while\<close> loop of the breadth-first search, on the queue, the visited set (a
  JavaScript \<^verbatim>\<open>Set\<close>, in insertion order) and the distances assigned so far. It returns
  the final \<open>visited\<close> and \<open>blockDistances\<close>, with the error when the loop ended by one:
  \<^verbatim>\<open>adjList[currentNodeId] || []\<close> is an inherited property when the identifier names
  one, and the \<^verbatim>\<open>for ... of\<close> over it is a TypeError.
\<close>

function bfs :: "string list jsobject \<Rightarrow> (string \<times> nat) list \<Rightarrow> string list \<Rightarrow> nat jsobject
    \<Rightarrow> error option \<times> string list \<times> nat jsobject" where
  "bfs adjList [] visited blockDistances = (None, visited, blockDistances)"
| "bfs adjList ((currentNodeId, distance) # queue) visited blockDistances =
     (if currentNodeId \<in> set visited then bfs adjList queue visited blockDistances
      else (case objGet adjList currentNodeId of
              Own outgoingNodeIds \<Rightarrow>
                bfs adjList (queue @ map (\<lambda>targetId. (targetId, distance + 1)) outgoingNodeIds)
                  (visited @ [currentNodeId]) (objAssign currentNodeId distance blockDistances)
            | Missing \<Rightarrow>
                bfs adjList queue
                  (visited @ [currentNodeId]) (objAssign currentNodeId distance blockDistances)
            | Inherited \<Rightarrow>
                (Some TypeError, visited @ [currentNodeId],
                 objAssign currentNodeId distance blockDistances)))"
  by pat_completeness auto

text \<open>
  The loop ends: a step either drops a queue entry whose node is already visited, or
  visits a node that was not, and the nodes that can ever stand in the queue are those
  in it and the targets of the adjacency list.
\<close>

definition bfsMeasure ::
    "string list jsobject \<times> (string \<times> nat) list \<times> string list \<times> nat jsobject \<Rightarrow> nat \<times> nat" where
  "bfsMeasure = (\<lambda>(adjList, queue, visited, blockDistances).
     (card ((fst ` set queue \<union> \<Union> (set ` snd ` set adjList)) - set visited), length queue))"

lemma objGet_Own_mem: "objGet obj k = Own v \<Longrightarrow> v \<in> snd ` set obj"
  by (auto simp: objGet_def split: option.splits if_splits dest!: map_of_SomeD
        intro: rev_image_eqI)

termination bfs
proof (relation "inv_image (less_than <*lex*> less_than) bfsMeasure", goal_cases)
  case 1
  show ?case by auto
next
  case (2 adjList cur d queue visited ds)
  have "(fst ` set queue \<union> \<Union> (set ` snd ` set adjList)) - set visited
        \<subseteq> (fst ` set ((cur, d) # queue) \<union> \<Union> (set ` snd ` set adjList)) - set visited"
    by auto
  then have "card ((fst ` set queue \<union> \<Union> (set ` snd ` set adjList)) - set visited)
        \<le> card ((fst ` set ((cur, d) # queue) \<union> \<Union> (set ` snd ` set adjList)) - set visited)"
    by (intro card_mono) auto
  then show ?case by (auto simp: bfsMeasure_def)
next
  case (3 adjList cur d queue visited ds ts)
  let ?U = "\<Union> (set ` snd ` set adjList)"
  from 3 have ts: "set ts \<subseteq> ?U" using objGet_Own_mem[OF 3(2)] by blast
  have "(fst ` set (queue @ map (\<lambda>t. (t, d + 1)) ts) \<union> ?U) - set (visited @ [cur])
        \<subset> (fst ` set ((cur, d) # queue) \<union> ?U) - set visited"
    using 3(1) ts by (auto simp: image_Un image_image)
  then have "card ((fst ` set (queue @ map (\<lambda>t. (t, d + 1)) ts) \<union> ?U) - set (visited @ [cur]))
        < card ((fst ` set ((cur, d) # queue) \<union> ?U) - set visited)"
    by (intro psubset_card_mono) auto
  then show ?case by (simp add: bfsMeasure_def)
next
  case (4 adjList cur d queue visited ds)
  let ?U = "\<Union> (set ` snd ` set adjList)"
  have "(fst ` set queue \<union> ?U) - set (visited @ [cur])
        \<subset> (fst ` set ((cur, d) # queue) \<union> ?U) - set visited"
    using 4(1) by auto
  then have "card ((fst ` set queue \<union> ?U) - set (visited @ [cur]))
        < card ((fst ` set ((cur, d) # queue) \<union> ?U) - set visited)"
    by (intro psubset_card_mono) auto
  then show ?case by (simp add: bfsMeasure_def)
qed

text \<open>
  The same loop with a bound on the number of times its condition is tested: \<open>None\<close>
  when the bound is used up before the loop has ended.
\<close>

primrec bfsFuel :: "nat \<Rightarrow> string list jsobject \<Rightarrow> (string \<times> nat) list \<Rightarrow> string list
    \<Rightarrow> nat jsobject \<Rightarrow> (error option \<times> string list \<times> nat jsobject) option" where
  "bfsFuel 0 adjList queue visited blockDistances = None"
| "bfsFuel (Suc n) adjList queue visited blockDistances =
     (case queue of
        [] \<Rightarrow> Some (None, visited, blockDistances)
      | (currentNodeId, distance) # rest \<Rightarrow>
          if currentNodeId \<in> set visited then bfsFuel n adjList rest visited blockDistances
          else (case objGet adjList currentNodeId of
                  Own outgoingNodeIds \<Rightarrow>
                    bfsFuel n adjList
                      (rest @ map (\<lambda>targetId. (targetId, distance + 1)) outgoingNodeIds)
                      (visited @ [currentNodeId])
                      (objAssign currentNodeId distance blockDistances)
                | Missing \<Rightarrow>
                    bfsFuel n adjList rest
                      (visited @ [currentNodeId])
                      (objAssign currentNodeId distance blockDistances)
                | Inherited \<Rightarrow>
                    Some (Some TypeError, visited @ [currentNodeId],
                          objAssign currentNodeId distance blockDistances)))"

text \<open>The edges that leave the nodes not visited yet.\<close>

definition pendingEdges :: "string list jsobject \<Rightarrow> string list \<Rightarrow> nat" where
  "pendingEdges adjList visited =
     sum_list (map (\<lambda>kv. length (snd kv)) (filter (\<lambda>kv. fst kv \<notin> set visited) adjList))"

text \<open>
  The first part of \<^verbatim>\<open>groupedOutputs\<close>: the starter block is the first block of the
  starter type; without one, or when its identifier is the empty string (which is
  falsy), no distance is computed.
\<close>

definition computeDistances :: "block list \<Rightarrow> edge list \<Rightarrow> error + nat jsobject" where
  "computeDistances blocks edges =
     (case find (\<lambda>b. block_type b = ''starter'') blocks of
        None \<Rightarrow> Inr []
      | Some starterBlock \<Rightarrow>
          if block_id starterBlock = [] then Inr []
          else (case buildAdjList edges [] of
                  Inl e \<Rightarrow> Inl e
                | Inr adjList \<Rightarrow>
                    (case bfs adjList [(block_id starterBlock, 0)] [] [] of
                       (Some e, visited, blockDistances) \<Rightarrow> Inl e
                     | (None, visited, blockDistances) \<Rightarrow> Inr blockDistances)))"

section \<open>Output selector: grouping and ordering\<close>

text \<open>
  \<^verbatim>\<open>groups[output.blockName]\<close> is created on the first handle of a name and pushed onto
  afterwards. A name that is a property inherited from the prototype reads truthy, so no
  array is created, and the call of \<^verbatim>\<open>push\<close> is a TypeError.
\<close>

fun groupByName :: "outputHandle list \<Rightarrow> outputHandle list jsobject
    \<Rightarrow> error + outputHandle list jsobject" where
  "groupByName [] groups = Inr groups"
| "groupByName (output # rest) groups =
     (case objGet groups (blockName output) of
        Missing \<Rightarrow> groupByName rest (AList.update (blockName output) [output] groups)
      | Own hs \<Rightarrow> groupByName rest (AList.update (blockName output) (hs @ [output]) groups)
      | Inherited \<Rightarrow> Inl TypeError)"

text \<open>
  The distance of a group: \<^verbatim>\<open>blockId ? blockDistances[blockId] || 0 : 0\<close> for the
  block of the group's first handle. The read of an identifier that names an inherited
  property is that property, which is not a number.
\<close>

datatype jsdistance = Num nat | NotANumber

definition groupDistance :: "nat jsobject \<Rightarrow> outputHandle list \<Rightarrow> jsdistance" where
  "groupDistance blockDistances outputs =
     (case outputs of
        [] \<Rightarrow> Num 0
      | first # rest \<Rightarrow>
          if blockId first = [] then Num 0
          else (case objGet blockDistances (blockId first) of
                  Own d \<Rightarrow> Num d
                | Missing \<Rightarrow> Num 0
                | Inherited \<Rightarrow> NotANumber))"

record outputGroup =
  groupName :: string
  groupOutputs :: "outputHandle list"
  distance :: jsdistance

definition groupsArray :: "nat jsobject \<Rightarrow> outputHandle list jsobject \<Rightarrow> outputGroup list" where
  "groupsArray blockDistances groups =
     map (\<lambda>kv. \<lparr>groupName = fst kv, groupOutputs = snd kv,
                distance = groupDistance blockDistances (snd kv)\<rparr>) (objEntries groups)"

text \<open>
  \<^verbatim>\<open>groupsArray.sort((a, b) => b.distance - a.distance)\<close>. The sort is stable. When
  every distance is a number it sorts by descending distance. A distance that is not a
  number compares as equal to everything: when the numbers among the distances are all
  the same every pair ties and the array stays as it is, otherwise the comparator is
  inconsistent and the order is left to the implementation (\<open>None\<close>).
\<close>

fun isNum :: "jsdistance \<Rightarrow> bool" where
  "isNum (Num d) = True"
| "isNum NotANumber = False"

fun sortKey :: "jsdistance \<Rightarrow> int" where
  "sortKey (Num d) = - int d"
| "sortKey NotANumber = 0"

definition sortByDistance :: "outputGroup list \<Rightarrow> outputGroup list option" where
  "sortByDistance gs =
     (if list_all (\<lambda>g. isNum (distance g)) gs
      then Some (sort_key (\<lambda>g. sortKey (distance g)) gs)
      else if length (remdups (map distance (filter (\<lambda>g. isNum (distance g)) gs))) \<le> 1
      then Some gs
      else None)"

text \<open>
  \<^verbatim>\<open>groupedOutputs\<close>: the record built from the sorted array by the \<^verbatim>\<open>reduce\<close>. The
  component renders it with \<^verbatim>\<open>Object.entries\<close>, which is \<open>objEntries\<close> here.
\<close>

datatype 'a outcome = Returns 'a | Throws error | ImplementationDefined

definition groupedOutputs ::
    "block list \<Rightarrow> edge list \<Rightarrow> outputHandle list \<Rightarrow> outputHandle list jsobject outcome" where
  "groupedOutputs blocks edges outs =
     (case computeDistances blocks edges of
        Inl e \<Rightarrow> Throws e
      | Inr blockDistances \<Rightarrow>
          (case groupByName outs [] of
             Inl e \<Rightarrow> Throws e
           | Inr groups \<Rightarrow>
               (case sortByDistance (groupsArray blockDistances groups) of
                  None \<Rightarrow> ImplementationDefined
                | Some sortedArray \<Rightarrow>
                    Returns (foldl (\<lambda>acc g. AList.update (groupName g) (groupOutputs g) acc)
                               [] sortedArray))))"

text \<open>
  The grouping in the words of the specification: the names in the order of their first
  handle, each with the handles of that name in their order.
\<close>

fun firstOccurrences :: "'a list \<Rightarrow> 'a list" where
  "firstOccurrences [] = []"
| "firstOccurrences (x # xs) = x # filter (\<lambda>y. y \<noteq> x) (firstOccurrences xs)"

definition groupsByBlockName :: "outputHandle list \<Rightarrow> outputHandle list jsobject" where
  "groupsByBlockName outs =
     map (\<lambda>n. (n, filter (\<lambda>h. blockName h = n) outs)) (firstOccurrences (map blockName outs))"

section \<open>Example workflow\<close>

text \<open>
  The example of the specification: a starter block and an agent block with the response
  \<^verbatim>\<open>{text: "x"}\<close>, joined by one edge. The starter block is given a response of its
  own, to see that it is skipped.
\<close>

definition startBlock :: block where
  "startBlock = \<lparr>block_id = ''start'', block_name = ''Start'', block_type = ''starter'',
     block_outputs = JObj [(''response'', JObj [(''input'', JStr ''hello'')])]\<rparr>"

definition agentBlock :: block where
  "agentBlock = \<lparr>block_id = ''agent1'', block_name = ''Agent 1'', block_type = ''agent'',
     block_outputs = JObj [(''response'', JObj [(''text'', JStr ''x'')])]\<rparr>"

definition agentHandle :: outputHandle where
  "agentHandle = \<lparr>handleId = ''agent1_response.text'', label = ''agent1.response.text'',
     blockId = ''agent1'', blockName = ''Agent 1'', blockType = ''agent'',
     path = ''response.text''\<rparr>"


text \<open>
  Two blocks whose handles get the same identifier: the identifier of the second continues
  the identifier of the first after an underscore.
\<close>

definition collidingBlock1 :: block where
  "collidingBlock1 = \<lparr>block_id = ''a'', block_name = ''First'', block_type = ''agent'',
     block_outputs = JObj [(''response'', JObj [(''b_response'', JObj [(''c'', JNum 1)])])]\<rparr>"

definition collidingBlock2 :: block where
  "collidingBlock2 = \<lparr>block_id = ''a_response.b'', block_name = ''Second'', block_type = ''agent'',
     block_outputs = JObj [(''response'', JObj [(''c'', JNum 1)])]\<rparr>"

text \<open>A second agent block, whose identifier continues the identifier of the first.\<close>

definition secondAgentBlock :: block where
  "secondAgentBlock = \<lparr>block_id = ''agent1_2'', block_name = ''Agent 2'', block_type = ''agent'',
     block_outputs = JObj [(''response'', JObj [(''text'', JStr ''y'')])]\<rparr>"

definition secondAgentHandle :: outputHandle where
  "secondAgentHandle = \<lparr>handleId = ''agent1_2_response.text'', label = ''agent2.response.text'',
     blockId = ''agent1_2'', blockName = ''Agent 2'', blockType = ''agent'',
     path = ''response.text''\<rparr>"

text \<open>
  The edge of the example, a block whose name is an array index, a block whose name is
  a property of the prototype, and blocks that share such a name.
\<close>

definition exampleEdges :: "edge list" where
  "exampleEdges = [\<lparr>source = ''start'', target = ''agent1''\<rparr>]"

definition numberedBlock :: block where
  "numberedBlock = \<lparr>block_id = ''fn7'', block_name = ''7'', block_type = ''function'',
     block_outputs = JObj [(''response'', JObj [(''result'', JNum 1)])]\<rparr>"

definition numberedHandle :: outputHandle where
  "numberedHandle = \<lparr>handleId = ''fn7_response.result'', label = ''7.response.result'',
     blockId = ''fn7'', blockName = ''7'', blockType = ''function'',
     path = ''response.result''\<rparr>"

definition constructorBlock :: block where
  "constructorBlock = \<lparr>block_id = ''c1'', block_name = ''constructor'', block_type = ''agent'',
     block_outputs = JObj [(''response'', JObj [(''text'', JStr ''x'')])]\<rparr>"

definition constructorHandle :: outputHandle where
  "constructorHandle = \<lparr>handleId = ''c1_response.text'', label = ''constructor.response.text'',
     blockId = ''c1'', blockName = ''constructor'', blockType = ''agent'',
     path = ''response.text''\<rparr>"

definition toStringBlock :: "string \<Rightarrow> block" where
  "toStringBlock i = \<lparr>block_id = i, block_name = ''toString'', block_type = ''function'',
     block_outputs = JObj [(''response'', JObj [(''result'', JNum 1)])]\<rparr>"

definition toStringHandle :: "string \<Rightarrow> outputHandle" where
  "toStringHandle i = \<lparr>handleId = i @ ''_response.result'', label = ''tostring.response.result'',
     blockId = i, blockName = ''toString'', blockType = ''function'',
     path = ''response.result''\<rparr>"

lemma normalizeName_agent: "normalizeName ''Agent 1'' = ''agent1''"
  by (simp add: normalizeName_def isWhitespace_def toLowerChar_def upperCaseChars_def lowerCaseChars_def)

lemma blockOutputs_startBlock: "blockOutputs startBlock = []"
  by (simp add: blockOutputs_def startBlock_def)

lemma blockOutputs_agentBlock: "blockOutputs agentBlock = [agentHandle]"
  by (simp add: blockOutputs_def agentBlock_def agentHandle_def normalizeName_agent Let_def)

lemma workflowOutputs_example:
  "workflowOutputs (Some ''wf'') [startBlock, agentBlock] = [agentHandle]"
  by (simp add: workflowOutputs_def blockOutputs_startBlock blockOutputs_agentBlock)

section \<open>Properties of the flattened handles\<close>

lemma addOutput_fields:
  "h \<in> set (addOutput b p v pre) \<Longrightarrow>
     blockId h = block_id b \<and> blockName h = block_name b \<and> blockType h = block_type b
     \<and> handleId h = block_id b @ ''_'' @ path h
     \<and> label h = normalizeName (block_name b) @ ''.'' @ path h"
  by (induction b p v pre rule: addOutput.induct) (auto simp: Let_def)

lemma blockOutputs_fields:
  "h \<in> set (blockOutputs b) \<Longrightarrow>
     blockId h = block_id b \<and> blockName h = block_name b \<and> blockType h = block_type b
     \<and> handleId h = block_id b @ ''_'' @ path h
     \<and> label h = normalizeName (block_name b) @ ''.'' @ path h
     \<and> block_type b \<noteq> ''starter''"
  using addOutput_fields[of h b "''response''" "getProp (block_outputs b) ''response''" "[]"]
  by (auto simp: blockOutputs_def split: if_splits)

lemma workflowOutputs_mem:
  "h \<in> set (workflowOutputs w blocks) \<Longrightarrow> \<exists>b \<in> set blocks. h \<in> set (blockOutputs b)"
  by (auto simp: workflowOutputs_def split: option.splits if_splits)

lemma workflowOutputs_fields:
  assumes "h \<in> set (workflowOutputs w blocks)"
  shows "handleId h = blockId h @ ''_'' @ path h"
    and "label h = normalizeName (blockName h) @ ''.'' @ path h"
    and "blockType h \<noteq> ''starter''"
  using workflowOutputs_mem[OF assms] blockOutputs_fields by auto

text \<open>
  Claim C9. When the workflow identifier is absent (null) the list of output handles is
  empty, whatever the blocks are, and nothing is raised: the function returns the empty
  list. The empty string, falsy as null is, gives the same.
\<close>

theorem workflowOutputs_without_workflow:
  "workflowOutputs None blocks = [] \<and> workflowOutputs (Some []) blocks = []"
  by (simp add: workflowOutputs_def)

text \<open>
  Claim C5. A block of the starter type contributes no output handle, whatever its
  \<^verbatim>\<open>outputs\<close> field holds: its own contribution is empty, and the flattened list of a
  collection is the same with the block and without it.
\<close>

theorem starter_block_contributes_nothing:
  assumes "block_type b = ''starter''"
  shows "blockOutputs b = []
     \<and> workflowOutputs w (before @ b # after) = workflowOutputs w (before @ after)"
  using assms by (simp add: blockOutputs_def workflowOutputs_def split: option.splits)

theorem starter_block_contributes_nothing_witness:
  "block_type startBlock = ''starter''
   \<and> getProp (block_outputs startBlock) ''response'' = JObj [(''input'', JStr ''hello'')]
   \<and> blockOutputs startBlock = []
   \<and> workflowOutputs (Some ''wf'') ([] @ startBlock # [agentBlock])
       = workflowOutputs (Some ''wf'') ([] @ [agentBlock])"
  using starter_block_contributes_nothing[of startBlock "Some ''wf''" "[]" "[agentBlock]"]
  by (simp add: startBlock_def)

section \<open>One handle for each leaf of the response\<close>






section \<open>Identifiers of the handles\<close>

text \<open>Every path is \<^verbatim>\<open>response\<close> or starts with \<^verbatim>\<open>response.\<close>\<close>

lemma addOutput_path_prefix:
  "h \<in> set (addOutput b p v pre) \<Longrightarrow>
     prefix (if pre \<noteq> [] then pre @ ''.'' @ p else p) (path h)"
proof (induction b p v pre arbitrary: h rule: addOutput.induct)
  case (1 b p kvs pre)
  let ?full = "if pre \<noteq> [] then pre @ ''.'' @ p else p"
  from 1(2) obtain kv where kv: "kv \<in> set kvs"
    and h: "h \<in> set (addOutput b (fst kv) (snd kv) ?full)"
    by (auto simp: Let_def)
  from 1(1)[OF refl kv h]
  have "prefix (if ?full \<noteq> [] then ?full @ ''.'' @ fst kv else fst kv) (path h)" .
  then show ?case by (cases "?full = []") (auto dest: append_prefixD)
qed (simp_all add: Let_def)

lemma addOutput_response_path:
  "h \<in> set (addOutput b ''response'' v []) \<Longrightarrow>
     path h = ''response'' \<or> prefix ''response.'' (path h)"
proof (cases v)
  case (JObj kvs)
  assume "h \<in> set (addOutput b ''response'' v [])"
  with JObj obtain kv where "h \<in> set (addOutput b (fst kv) (snd kv) ''response'')"
    by (auto simp: Let_def)
  from addOutput_path_prefix[OF this]
  have "prefix (''response.'' @ fst kv) (path h)" by simp
  then have "prefix ''response.'' (path h)" by (rule append_prefixD)
  then show ?thesis by simp
qed (simp_all add: Let_def)

lemma workflowOutputs_path:
  "h \<in> set (workflowOutputs w blocks) \<Longrightarrow>
     path h = ''response'' \<or> prefix ''response.'' (path h)"
proof -
  assume "h \<in> set (workflowOutputs w blocks)"
  from workflowOutputs_mem[OF this] obtain b where "h \<in> set (blockOutputs b)" by blast
  then have "h \<in> set (addOutput b ''response'' (getProp (block_outputs b) ''response'') [])"
    by (auto simp: blockOutputs_def split: if_splits)
  then show ?thesis by (rule addOutput_response_path)
qed

lemma response_prefix_cases:
  assumes "cs @ ''_'' @ p = ''response.'' @ q"
  shows "prefix ''response.'' cs"
proof -
  from assms have "prefix cs (''response.'' @ q)" by (metis prefixI)
  moreover have "prefix ''response.'' (''response.'' @ q)" by simp
  ultimately consider "prefix ''response.'' cs" | "prefix cs ''response.''"
    using prefix_same_cases by blast
  then show ?thesis
  proof cases
    case 1
    then show ?thesis .
  next
    case 2
    then have "cs \<in> set (prefixes ''response.'')" by (simp only: in_set_prefixes)
    then have "cs \<in> {[], ''r'', ''re'', ''res'', ''resp'', ''respo'', ''respon'', ''respons'',
        ''response'', ''response.''}"
      by simp
    with assms show ?thesis by auto
  qed
qed

lemma separator_split_response:
  assumes eq: "a @ ''_'' @ p = b @ ''_'' @ q"
    and p: "p = ''response'' \<or> prefix ''response.'' p"
    and q: "q = ''response'' \<or> prefix ''response.'' q"
    and ab: "\<not> prefix (a @ ''_response.'') b" and ba: "\<not> prefix (b @ ''_response.'') a"
  shows "a = b \<and> p = q"
proof -
  have longer: "False" if e: "cs @ ''_'' @ p' = q'" 
    and p': "p' = ''response'' \<or> prefix ''response.'' p'"
    and q': "q' = ''response'' \<or> prefix ''response.'' q'"
    and n: "\<not> prefix ''response.'' cs" for cs p' q'
  proof -
    from p' have lp: "8 \<le> length p'" by (auto simp: prefix_def)
    from q' show False
    proof
      assume "q' = ''response''"
      with e have "length (cs @ ''_'' @ p') = 8" by simp
      with lp show False by simp
    next
      assume "prefix ''response.'' q'"
      then obtain r where "q' = ''response.'' @ r" by (auto simp: prefix_def)
      with e have "cs @ ''_'' @ p' = ''response.'' @ r" by simp
      from response_prefix_cases[OF this] n show False by simp
    qed
  qed
  from eq obtain us where
    us: "(a = b @ us \<and> us @ ''_'' @ p = ''_'' @ q) \<or> (a @ us = b \<and> ''_'' @ p = us @ ''_'' @ q)"
    by (auto simp: append_eq_append_conv2)
  have "us = []"
  proof (rule ccontr)
    assume ne: "us \<noteq> []"
    then obtain c cs where cs: "us = c # cs" by (cases us) auto
    from us show False
    proof
      assume h: "a = b @ us \<and> us @ ''_'' @ p = ''_'' @ q"
      with cs have a: "a = b @ ''_'' @ cs" and e: "cs @ ''_'' @ p = q" by auto
      have "\<not> prefix ''response.'' cs"
      proof
        assume "prefix ''response.'' cs"
        then obtain r where "cs = ''response.'' @ r" by (auto simp: prefix_def)
        with a have "a = (b @ ''_response.'') @ r" by simp
        then have "prefix (b @ ''_response.'') a" by (metis prefixI)
        with ba show False by simp
      qed
      from longer[OF e p q this] show False .
    next
      assume h: "a @ us = b \<and> ''_'' @ p = us @ ''_'' @ q"
      with cs have b: "b = a @ ''_'' @ cs" and e: "cs @ ''_'' @ q = p" by auto
      have "\<not> prefix ''response.'' cs"
      proof
        assume "prefix ''response.'' cs"
        then obtain r where "cs = ''response.'' @ r" by (auto simp: prefix_def)
        with b have "b = (a @ ''_response.'') @ r" by simp
        then have "prefix (a @ ''_response.'') b" by (metis prefixI)
        with ab show False by simp
      qed
      from longer[OF e q p this] show False .
    qed
  qed
  with us show ?thesis by auto
qed

text \<open>
  Claim C6, as stated, fails when one block identifier is another one followed by
  \<^verbatim>\<open>_response.\<close> and more: the two handles below come from different blocks and paths
  and have the same identifier.
\<close>

theorem handle_identifiers_counterexample:
  "map handleId (workflowOutputs (Some ''wf'') [collidingBlock1, collidingBlock2])
     = [''a_response.b_response.c'', ''a_response.b_response.c'']
   \<and> map blockId (workflowOutputs (Some ''wf'') [collidingBlock1, collidingBlock2])
     = [''a'', ''a_response.b'']
   \<and> map path (workflowOutputs (Some ''wf'') [collidingBlock1, collidingBlock2])
     = [''response.b_response.c'', ''response.c'']"
  by (simp add: workflowOutputs_def blockOutputs_def collidingBlock1_def collidingBlock2_def Let_def)

text \<open>
  Claim C6, amended. Two handles of a workflow that come from distinct pairs of block
  identifier and path have distinct identifiers, provided neither block identifier is the
  other one followed by \<^verbatim>\<open>_response.\<close> and, possibly, more characters.
\<close>

theorem handle_identifiers_unique:
  assumes "h1 \<in> set (workflowOutputs w blocks)" and "h2 \<in> set (workflowOutputs w blocks)"
    and "\<not> prefix (blockId h1 @ ''_response.'') (blockId h2)"
    and "\<not> prefix (blockId h2 @ ''_response.'') (blockId h1)"
    and "(blockId h1, path h1) \<noteq> (blockId h2, path h2)"
  shows "handleId h1 \<noteq> handleId h2"
proof
  assume "handleId h1 = handleId h2"
  then have "blockId h1 @ ''_'' @ path h1 = blockId h2 @ ''_'' @ path h2"
    using workflowOutputs_fields(1)[OF assms(1)] workflowOutputs_fields(1)[OF assms(2)] by simp
  from separator_split_response[OF this workflowOutputs_path[OF assms(1)]
      workflowOutputs_path[OF assms(2)] assms(3,4)] assms(5)
  show False by simp
qed


lemma blockOutputs_secondAgentBlock: "blockOutputs secondAgentBlock = [secondAgentHandle]"
  by (simp add: blockOutputs_def secondAgentBlock_def secondAgentHandle_def normalizeName_def
        isWhitespace_def toLowerChar_def upperCaseChars_def lowerCaseChars_def Let_def)

lemma workflowOutputs_two_agents:
  "workflowOutputs (Some ''wf'') [agentBlock, secondAgentBlock] = [agentHandle, secondAgentHandle]"
  by (simp add: workflowOutputs_def blockOutputs_agentBlock blockOutputs_secondAgentBlock)

theorem handle_identifiers_unique_witness:
  "agentHandle \<in> set (workflowOutputs (Some ''wf'') [agentBlock, secondAgentBlock])
   \<and> secondAgentHandle \<in> set (workflowOutputs (Some ''wf'') [agentBlock, secondAgentBlock])
   \<and> blockId agentHandle = ''agent1'' \<and> blockId secondAgentHandle = ''agent1_2''
   \<and> \<not> prefix (blockId agentHandle @ ''_response.'') (blockId secondAgentHandle)
   \<and> \<not> prefix (blockId secondAgentHandle @ ''_response.'') (blockId agentHandle)
   \<and> (blockId agentHandle, path agentHandle) \<noteq> (blockId secondAgentHandle, path secondAgentHandle)
   \<and> handleId agentHandle \<noteq> handleId secondAgentHandle"
  using handle_identifiers_unique[of agentHandle "Some ''wf''" "[agentBlock, secondAgentBlock]"
      secondAgentHandle]
  by (simp add: workflowOutputs_two_agents) (simp add: agentHandle_def secondAgentHandle_def)

section \<open>Termination of the breadth-first search\<close>

lemma pendingEdges_mono: "pendingEdges adj (vis @ [k]) \<le> pendingEdges adj vis"
  unfolding pendingEdges_def by (induction adj) auto

lemma pendingEdges_visit:
  "(k, ts) \<in> set adj \<Longrightarrow> k \<notin> set vis \<Longrightarrow>
     pendingEdges adj (vis @ [k]) + length ts \<le> pendingEdges adj vis"
proof (induction adj)
  case Nil
  then show ?case by simp
next
  case (Cons kv adj)
  have mono: "pendingEdges adj (vis @ [k]) \<le> pendingEdges adj vis" by (rule pendingEdges_mono)
  show ?case
  proof (cases "kv = (k, ts)")
    case True
    with Cons.prems mono show ?thesis by (simp add: pendingEdges_def)
  next
    case False
    with Cons have "pendingEdges adj (vis @ [k]) + length ts \<le> pendingEdges adj vis" by simp
    then show ?thesis by (simp add: pendingEdges_def)
  qed
qed

lemma objGet_Own_in: "objGet obj k = Own v \<Longrightarrow> (k, v) \<in> set obj"
  by (auto simp: objGet_def split: option.splits if_splits dest: map_of_SomeD)

lemma bfsFuel_enough:
  "length queue + pendingEdges adjList visited < n \<Longrightarrow>
     bfsFuel n adjList queue visited ds = Some (bfs adjList queue visited ds)"
proof (induction adjList queue visited ds arbitrary: n rule: bfs.induct)
  case (1 adjList visited ds)
  then show ?case by (cases n) auto
next
  case (2 adjList cur d queue visited ds)
  from 2(4) obtain m where n: "n = Suc m" by (cases n) auto
  show ?case
  proof (cases "cur \<in> set visited")
    case True
    with 2(1)[of m] 2(4) n show ?thesis by simp
  next
    case False
    show ?thesis
    proof (cases "objGet adjList cur")
      case (Own ts)
      from pendingEdges_visit[OF objGet_Own_in[OF Own] False]
      have "length (queue @ map (\<lambda>t. (t, d + 1)) ts) + pendingEdges adjList (visited @ [cur]) < m"
        using 2(4) n by simp
      from 2(2)[OF False Own this] False Own n show ?thesis by simp
    next
      case Inherited
      with False n show ?thesis by simp
    next
      case Missing
      have "length queue + pendingEdges adjList (visited @ [cur]) < m"
        using pendingEdges_mono[of adjList visited cur] 2(4) n by simp
      from 2(3)[OF False Missing this] False Missing n show ?thesis by simp
    qed
  qed
qed

lemma objAssign_keys:
  "map fst (objAssign k v obj) =
     (if k = ''__proto__'' \<or> k \<in> set (map fst obj) then map fst obj else map fst obj @ [k])"
  by (simp add: objAssign_def update_keys)

lemma bfs_invariant:
  "bfs adjList queue visited ds = (err, visited', ds') \<Longrightarrow>
   distinct visited \<Longrightarrow> map fst ds = filter (\<lambda>k. k \<noteq> ''__proto__'') visited \<Longrightarrow>
     distinct visited' \<and> map fst ds' = filter (\<lambda>k. k \<noteq> ''__proto__'') visited'"
proof (induction adjList queue visited ds rule: bfs.induct)
  case (1 adjList visited ds)
  then show ?case by simp
next
  case (2 adjList cur d queue visited ds)
  show ?case
  proof (cases "cur \<in> set visited")
    case True
    with 2 show ?thesis by simp
  next
    case False
    have dv: "distinct (visited @ [cur])" using False 2(5) by simp
    have keys: "map fst (objAssign cur d ds) = filter (\<lambda>k. k \<noteq> ''__proto__'') (visited @ [cur])"
    proof -
      have "cur \<notin> set (map fst ds)" using False 2(6) by simp
      then show ?thesis using 2(6) by (simp add: objAssign_keys)
    qed
    show ?thesis
    proof (cases "objGet adjList cur")
      case (Own ts)
      with 2(2)[OF False Own _ dv keys] 2(4) False show ?thesis by simp
    next
      case Inherited
      with 2(4) False dv keys show ?thesis by auto
    next
      case Missing
      with 2(3)[OF False Missing _ dv keys] 2(4) False show ?thesis by simp
    qed
  qed
qed


lemma update_total_new:
  "map_of al k = None \<Longrightarrow>
     sum_list (map (\<lambda>kv. length (snd kv)) (AList.update k v al))
       = sum_list (map (\<lambda>kv. length (snd kv)) al) + length v"
  by (induction al) (auto split: if_splits)

lemma update_total_push:
  "map_of al k = Some ts \<Longrightarrow>
     sum_list (map (\<lambda>kv. length (snd kv)) (AList.update k (ts @ [t]) al))
       = sum_list (map (\<lambda>kv. length (snd kv)) al) + 1"
  by (induction al) (auto split: if_splits)

lemma buildAdjList_total:
  "buildAdjList edges acc = Inr adjList \<Longrightarrow>
     pendingEdges adjList [] = pendingEdges acc [] + length edges"
proof (induction edges arbitrary: acc)
  case Nil
  then show ?case by simp
next
  case (Cons e es)
  show ?case
  proof (cases "objGet acc (source e)")
    case (Own ts)
    then have m: "map_of acc (source e) = Some ts"
      by (auto simp: objGet_def split: option.splits if_splits)
    from Cons.prems Own
    have "buildAdjList es (AList.update (source e) (ts @ [target e]) acc) = Inr adjList" by simp
    from Cons.IH[OF this] update_total_push[OF m] show ?thesis by (simp add: pendingEdges_def)
  next
    case Inherited
    with Cons.prems show ?thesis by simp
  next
    case Missing
    then have m: "map_of acc (source e) = None"
      by (auto simp: objGet_def split: option.splits if_splits)
    from Cons.prems Missing
    have "buildAdjList es (AList.update (source e) [target e] acc) = Inr adjList" by simp
    from Cons.IH[OF this] update_total_new[OF m] show ?thesis by (simp add: pendingEdges_def)
  qed
qed

lemma bfs_bounded_run:
  assumes "buildAdjList edges [] = Inr adjList"
  shows "\<exists>err visited blockDistances.
           bfs adjList [(starterBlockId, 0)] [] [] = (err, visited, blockDistances)
         \<and> bfsFuel (length edges + 2) adjList [(starterBlockId, 0)] [] []
             = Some (err, visited, blockDistances)
         \<and> distinct visited
         \<and> map fst blockDistances = filter (\<lambda>k. k \<noteq> ''__proto__'') visited"
proof -
  obtain err visited ds where r: "bfs adjList [(starterBlockId, 0)] [] [] = (err, visited, ds)"
    by (cases "bfs adjList [(starterBlockId, 0)] [] []") auto
  have "pendingEdges adjList [] = length edges"
    using buildAdjList_total[OF assms] by (simp add: pendingEdges_def)
  then have "length [(starterBlockId, 0::nat)] + pendingEdges adjList [] < length edges + 2"
    by simp
  from bfsFuel_enough[OF this, of "[]"] r
  have f: "bfsFuel (length edges + 2) adjList [(starterBlockId, 0)] [] [] = Some (err, visited, ds)"
    by simp
  from bfs_invariant[OF r] have "distinct visited \<and> map fst ds = filter (\<lambda>k. k \<noteq> ''__proto__'') visited"
    by simp
  with r f show ?thesis by blast
qed

lemma buildAdjList_throws:
  "buildAdjList edges acc = Inl e \<Longrightarrow>
     list_ex (\<lambda>e. source e \<in> set objectPrototypeKeys) edges"
proof (induction edges arbitrary: acc)
  case Nil
  then show ?case by simp
next
  case (Cons x xs)
  show ?case
  proof (cases "objGet acc (source x)")
    case (Own ts)
    with Cons show ?thesis by auto
  next
    case Inherited
    then have "source x \<in> set objectPrototypeKeys"
      by (auto simp: objGet_def split: option.splits if_splits)
    then show ?thesis by simp
  next
    case Missing
    with Cons show ?thesis by auto
  qed
qed

text \<open>
  A distance, once assigned, stays: the run from a loop state leaves the distance of
  every node already visited as it is, and the node taken from the queue, when it is
  new, ends with the distance it was queued with.
\<close>

lemma objAssign_other: "k \<noteq> cur \<Longrightarrow> map_of (objAssign cur d ds) k = map_of ds k"
  by (simp add: objAssign_def update_conv')

lemma objAssign_same: "cur \<noteq> ''__proto__'' \<Longrightarrow> map_of (objAssign cur d ds) cur = Some d"
  by (simp add: objAssign_def update_conv')

lemma bfs_keeps_distances:
  "bfs adjList queue visited ds = (err, visited', ds') \<Longrightarrow> k \<in> set visited \<Longrightarrow>
     map_of ds' k = map_of ds k"
proof (induction adjList queue visited ds rule: bfs.induct)
  case (1 adjList visited ds)
  then show ?case by simp
next
  case (2 adjList cur d queue visited ds)
  show ?case
  proof (cases "cur \<in> set visited")
    case True
    with 2 show ?thesis by simp
  next
    case False
    with 2(5) have ne: "k \<noteq> cur" by auto
    have k: "k \<in> set (visited @ [cur])" using 2(5) by simp
    show ?thesis
    proof (cases "objGet adjList cur")
      case (Own ts)
      with 2(2)[OF False Own _ k] 2(4) False objAssign_other[OF ne] show ?thesis by simp
    next
      case Inherited
      with 2(4) False objAssign_other[OF ne] show ?thesis by auto
    next
      case Missing
      with 2(3)[OF False Missing _ k] 2(4) False objAssign_other[OF ne] show ?thesis by simp
    qed
  qed
qed

lemma bfs_assigns_dequeued:
  assumes "bfs adjList ((cur, d) # queue) visited ds = (err, visited', ds')"
    and "cur \<notin> set visited" and "cur \<noteq> ''__proto__''"
  shows "map_of ds' cur = Some d"
proof (cases "objGet adjList cur")
  case (Own ts)
  with assms(1,2) have "bfs adjList (queue @ map (\<lambda>t. (t, d + 1)) ts) (visited @ [cur])
      (objAssign cur d ds) = (err, visited', ds')" by simp
  from bfs_keeps_distances[OF this, of cur] objAssign_same[OF assms(3)] show ?thesis by simp
next
  case Inherited
  with assms(1,2) objAssign_same[OF assms(3)] show ?thesis by auto
next
  case Missing
  with assms(1,2) have "bfs adjList queue (visited @ [cur])
      (objAssign cur d ds) = (err, visited', ds')" by simp
  from bfs_keeps_distances[OF this, of cur] objAssign_same[OF assms(3)] show ?thesis by simp
qed



text \<open>
  Claim C3. The breadth-first search ends for every list of edges, cyclic ones included.
  Either the adjacency list is not built, because the source of an edge names an
  inherited property (a TypeError, before the search starts); or the loop tests its
  condition at most \<open>length edges + 2\<close> times, since with that bound it gives the result
  of the unbounded loop. Each block identifier is expanded at most once. It is added to
  the visited set once: the visited nodes are distinct, and the keys of the distances, in
  the order of their creation, are the visited nodes (the key \<^verbatim>\<open>__proto__\<close> holds no
  distance). It is assigned a distance once: from every loop state, a new node taken from
  the queue ends with the distance it was queued with, and a node that is already visited
  keeps the distance it has, however often it is taken from the queue again.
\<close>

theorem bfs_terminates_expanding_once:
  "(case buildAdjList edges [] of
      Inl e \<Rightarrow> list_ex (\<lambda>e. source e \<in> set objectPrototypeKeys) edges
    | Inr adjList \<Rightarrow>
        (\<exists>err visited blockDistances.
           bfs adjList [(starterBlockId, 0)] [] [] = (err, visited, blockDistances)
         \<and> bfsFuel (length edges + 2) adjList [(starterBlockId, 0)] [] []
             = Some (err, visited, blockDistances)
         \<and> distinct visited
         \<and> map fst blockDistances = filter (\<lambda>k. k \<noteq> ''__proto__'') visited))
   \<and> (bfs adj ((currentNodeId, d) # queue) seen ds = (err', seen', ds')
        \<and> currentNodeId \<notin> set seen \<and> currentNodeId \<noteq> ''__proto__''
        \<longrightarrow> map_of ds' currentNodeId = Some d)
   \<and> (bfs adj queue seen ds = (err', seen', ds') \<and> k \<in> set seen
        \<longrightarrow> map_of ds' k = map_of ds k)"
proof (intro conjI impI)
  show "case buildAdjList edges [] of
      Inl e \<Rightarrow> list_ex (\<lambda>e. source e \<in> set objectPrototypeKeys) edges
    | Inr adjList \<Rightarrow>
        (\<exists>err visited blockDistances.
           bfs adjList [(starterBlockId, 0)] [] [] = (err, visited, blockDistances)
         \<and> bfsFuel (length edges + 2) adjList [(starterBlockId, 0)] [] []
             = Some (err, visited, blockDistances)
         \<and> distinct visited
         \<and> map fst blockDistances = filter (\<lambda>k. k \<noteq> ''__proto__'') visited)"
  proof (cases "buildAdjList edges []")
    case (Inl e)
    with buildAdjList_throws[OF Inl] show ?thesis by simp
  next
    case (Inr adjList)
    with bfs_bounded_run[OF Inr, of starterBlockId] show ?thesis by simp
  qed
next
  assume "bfs adj ((currentNodeId, d) # queue) seen ds = (err', seen', ds')
        \<and> currentNodeId \<notin> set seen \<and> currentNodeId \<noteq> ''__proto__''"
  then show "map_of ds' currentNodeId = Some d"
    using bfs_assigns_dequeued by blast
next
  assume "bfs adj queue seen ds = (err', seen', ds') \<and> k \<in> set seen"
  then show "map_of ds' k = map_of ds k"
    using bfs_keeps_distances by blast
qed

text \<open>The cyclic example of the specification: the edges A to B and B to A.\<close>

lemma cyclic_adjList:
  "buildAdjList [\<lparr>source = ''A'', target = ''B''\<rparr>, \<lparr>source = ''B'', target = ''A''\<rparr>] []
     = Inr [(''A'', [''B'']), (''B'', [''A''])]"
  by (simp add: objGet_def objectPrototypeKeys_def)

lemma cyclic_bfs:
  "bfs [(''A'', [''B'']), (''B'', [''A''])] [(''A'', 0)] [] []
     = (None, [''A'', ''B''], [(''A'', 0), (''B'', 1)])"
  by (simp add: objGet_def objectPrototypeKeys_def objAssign_def)

lemma cyclic_bfs_revisit:
  "bfs [(''A'', [''B'']), (''B'', [''A''])] [(''A'', 2)] [''A'', ''B''] [(''A'', 0), (''B'', 1)]
     = (None, [''A'', ''B''], [(''A'', 0), (''B'', 1)])"
  by simp

theorem bfs_terminates_expanding_once_witness:
  "buildAdjList [\<lparr>source = ''A'', target = ''B''\<rparr>, \<lparr>source = ''B'', target = ''A''\<rparr>] []
     = Inr [(''A'', [''B'']), (''B'', [''A''])]
   \<and> bfs [(''A'', [''B'']), (''B'', [''A''])] [(''A'', 0)] [] []
     = (None, [''A'', ''B''], [(''A'', 0), (''B'', 1)])
   \<and> bfsFuel 4 [(''A'', [''B'']), (''B'', [''A''])] [(''A'', 0)] [] []
     = Some (None, [''A'', ''B''], [(''A'', 0), (''B'', 1)])
   \<and> bfs [(''A'', [''B'']), (''B'', [''A''])] [(''A'', 2)] [''A'', ''B'']
        [(''A'', 0), (''B'', 1)]
     = (None, [''A'', ''B''], [(''A'', 0), (''B'', 1)])
   \<and> ''A'' \<in> set [''A'', ''B'']
   \<and> map_of [(''A'', 0), (''B'', 1::nat)] ''A'' = Some 0"
proof -
  have len: "length [\<lparr>source = ''A'', target = ''B''\<rparr>, \<lparr>source = ''B'', target = ''A''\<rparr>] + 2
      = (4::nat)"
    by simp
  note t = bfs_terminates_expanding_once[of
      "[\<lparr>source = ''A'', target = ''B''\<rparr>, \<lparr>source = ''B'', target = ''A''\<rparr>]" "''A''"
      "[(''A'', [''B'']), (''B'', [''A''])]" "''A''" 0 "[]" "[]" "[]"
      None "[''A'', ''B'']" "[(''A'', 0), (''B'', 1)]" "''A''"]
  from t have "bfsFuel 4 [(''A'', [''B'']), (''B'', [''A''])] [(''A'', 0)] [] []
      = Some (bfs [(''A'', [''B'']), (''B'', [''A''])] [(''A'', 0)] [] [])"
    unfolding len cyclic_adjList sum.case by (elim exE conjE) (simp only:)
  moreover from t cyclic_bfs have "map_of [(''A'', 0), (''B'', 1::nat)] ''A'' = Some 0"
    by simp
  ultimately show ?thesis
    by (simp only: cyclic_adjList cyclic_bfs cyclic_bfs_revisit simp_thms) simp
qed

section \<open>Grouping and ordering of the output handles\<close>

lemma set_firstOccurrences [simp]: "set (firstOccurrences xs) = set xs"
  by (induction xs) auto

lemma distinct_firstOccurrences [simp]: "distinct (firstOccurrences xs)"
  by (induction xs) auto

lemma firstOccurrences_filter:
  "firstOccurrences (filter P xs) = filter P (firstOccurrences xs)"
  by (induction xs) (auto simp: filter_filter conj_commute intro: filter_cong)

lemma firstOccurrences_snoc:
  "firstOccurrences (xs @ [x]) = (if x \<in> set xs then firstOccurrences xs else firstOccurrences xs @ [x])"
  by (induction xs) auto

lemma groupByName_append:
  "groupByName (xs @ ys) acc =
     (case groupByName xs acc of Inl e \<Rightarrow> Inl e | Inr groups \<Rightarrow> groupByName ys groups)"
  by (induction xs arbitrary: acc) (auto split: property.splits)

lemma map_of_groupsByBlockName:
  "map_of (groupsByBlockName outs) n =
     (if n \<in> blockName ` set outs then Some (filter (\<lambda>h. blockName h = n) outs) else None)"
  unfolding groupsByBlockName_def by (simp add: map_of_map_restrict restrict_map_def)

lemma update_map_new:
  "k \<notin> set ks \<Longrightarrow> AList.update k v (map (\<lambda>n. (n, f n)) ks) = map (\<lambda>n. (n, f n)) ks @ [(k, v)]"
  by (induction ks) auto

lemma update_map_old:
  "distinct ks \<Longrightarrow> k \<in> set ks \<Longrightarrow> g k = v \<Longrightarrow> (\<And>n. n \<noteq> k \<Longrightarrow> g n = f n) \<Longrightarrow>
     AList.update k v (map (\<lambda>n. (n, f n)) ks) = map (\<lambda>n. (n, g n)) ks"
  by (induction ks) (auto, metis)

lemma groupsByBlockName_snoc:
  "groupsByBlockName (outs @ [h]) =
     AList.update (blockName h) (filter (\<lambda>x. blockName x = blockName h) outs @ [h])
       (groupsByBlockName outs)"
proof (cases "blockName h \<in> blockName ` set outs")
  case True
  have "AList.update (blockName h) (filter (\<lambda>x. blockName x = blockName h) outs @ [h])
          (map (\<lambda>n. (n, filter (\<lambda>x. blockName x = n) outs)) (firstOccurrences (map blockName outs)))
        = map (\<lambda>n. (n, filter (\<lambda>x. blockName x = n) (outs @ [h]))) (firstOccurrences (map blockName outs))"
    by (rule update_map_old) (use True in auto)
  with True show ?thesis by (simp add: groupsByBlockName_def firstOccurrences_snoc)
next
  case False
  then have e: "filter (\<lambda>x. blockName x = blockName h) outs = []"
    by (auto simp: filter_empty_conv) (metis imageI)
  have "map (\<lambda>n. (n, filter (\<lambda>x. blockName x = n) (outs @ [h]))) (firstOccurrences (map blockName outs))
      = map (\<lambda>n. (n, filter (\<lambda>x. blockName x = n) outs)) (firstOccurrences (map blockName outs))"
    using False by (intro map_cong) auto
  with False e show ?thesis
    by (simp add: groupsByBlockName_def firstOccurrences_snoc update_map_new)
qed

lemma groupByName_groups:
  "list_all (\<lambda>h. blockName h \<notin> set objectPrototypeKeys) outs \<Longrightarrow>
     groupByName outs [] = Inr (groupsByBlockName outs)"
proof (induction outs rule: rev_induct)
  case Nil
  then show ?case by (simp add: groupsByBlockName_def)
next
  case (snoc h outs)
  then have IH: "groupByName outs [] = Inr (groupsByBlockName outs)"
    and h: "blockName h \<notin> set objectPrototypeKeys" by simp_all
  show ?case
  proof (cases "blockName h \<in> blockName ` set outs")
    case True
    then have "objGet (groupsByBlockName outs) (blockName h)
        = Own (filter (\<lambda>x. blockName x = blockName h) outs)"
      by (simp add: objGet_def map_of_groupsByBlockName)
    then show ?thesis by (simp add: groupByName_append IH groupsByBlockName_snoc)
  next
    case False
    then have e: "filter (\<lambda>x. blockName x = blockName h) outs = []"
    by (auto simp: filter_empty_conv) (metis imageI)
    from False h have "objGet (groupsByBlockName outs) (blockName h) = Missing"
      by (simp add: objGet_def map_of_groupsByBlockName)
    then show ?thesis by (simp add: groupByName_append IH groupsByBlockName_snoc e)
  qed
qed

lemma objGet_cases:
  "objGet obj k = Own v \<Longrightarrow> k \<in> set (map fst obj)"
  "objGet obj k = Missing \<Longrightarrow> k \<notin> set objectPrototypeKeys"
  by (auto simp: objGet_def split: option.splits if_splits dest: map_of_SomeD intro: rev_image_eqI)

lemma groupByName_throws:
  "list_all (\<lambda>k. k \<notin> set objectPrototypeKeys) (map fst acc) \<Longrightarrow>
   \<not> list_all (\<lambda>h. blockName h \<notin> set objectPrototypeKeys) outs \<Longrightarrow>
     groupByName outs acc = Inl TypeError"
proof (induction outs arbitrary: acc)
  case Nil
  then show ?case by simp
next
  case (Cons h outs)
  show ?case
  proof (cases "objGet acc (blockName h)")
    case Inherited
    then show ?thesis by simp
  next
    case (Own hs)
    from objGet_cases(1)[OF Own] Cons.prems(1)
    have k: "blockName h \<notin> set objectPrototypeKeys" by (auto simp: list_all_iff)
    with objGet_cases(1)[OF Own] Cons.prems(1)
    have "list_all (\<lambda>k. k \<notin> set objectPrototypeKeys)
            (map fst (AList.update (blockName h) (hs @ [h]) acc))"
      by (simp add: update_keys)
    from Cons.IH[OF this] k Cons.prems(2) Own show ?thesis by simp
  next
    case Missing
    from objGet_cases(2)[OF Missing]
    have k: "blockName h \<notin> set objectPrototypeKeys" .
    with Cons.prems(1)
    have "list_all (\<lambda>k. k \<notin> set objectPrototypeKeys)
            (map fst (AList.update (blockName h) [h] acc))"
      by (simp add: update_keys)
    from Cons.IH[OF this] k Cons.prems(2) Missing show ?thesis by simp
  qed
qed


lemma groupDistance_first:
  "groupDistance ds (first # rest) = groupDistance ds [first]"
  by (simp add: groupDistance_def)

lemma groupDistance_num:
  "list_all (\<lambda>h. blockId h \<notin> set objectPrototypeKeys) hs \<Longrightarrow> isNum (groupDistance ds hs)"
  by (cases hs) (auto simp: groupDistance_def objGet_def split: option.splits)

lemma mset_objEntries: "mset (objEntries obj) = mset obj"
  by (simp add: objEntries_def)

lemma set_objEntries: "set (objEntries obj) = set obj"
  by (auto simp: objEntries_def)

lemma objEntries_no_index:
  "list_all (\<lambda>kv. \<not> isArrayIndex (fst kv)) obj \<Longrightarrow> objEntries obj = obj"
proof -
  assume a: "list_all (\<lambda>kv. \<not> isArrayIndex (fst kv)) obj"
  then have "filter (\<lambda>kv. isArrayIndex (fst kv)) obj = []"
    by (auto simp: filter_empty_conv list_all_iff)
  moreover from a have "filter (\<lambda>kv. \<not> isArrayIndex (fst kv)) obj = obj"
    by (auto simp: list_all_iff)
  ultimately show ?thesis by (simp add: objEntries_def)
qed

lemma foldl_update_distinct:
  "distinct (map groupName gs @ map fst acc) \<Longrightarrow>
     foldl (\<lambda>acc g. AList.update (groupName g) (groupOutputs g) acc) acc gs
       = acc @ map (\<lambda>g. (groupName g, groupOutputs g)) gs"
proof (induction gs arbitrary: acc)
  case Nil
  then show ?case by simp
next
  case (Cons g gs)
  from Cons.prems have new: "groupName g \<notin> fst ` set acc" by auto
  then have u: "AList.update (groupName g) (groupOutputs g) acc = acc @ [(groupName g, groupOutputs g)]"
    by (induction acc) auto
  from Cons.prems have "distinct (map groupName gs @ map fst (acc @ [(groupName g, groupOutputs g)]))"
    by auto
  from Cons.IH[OF this] u show ?case by simp
qed

lemma groupsArray_names: "map groupName (groupsArray ds groups) = map fst (objEntries groups)"
  by (simp add: groupsArray_def comp_def)

lemma distinct_groupsByBlockName: "distinct (map fst (groupsByBlockName outs))"
  by (simp add: groupsByBlockName_def comp_def)

lemma distinct_objEntries_keys:
  "distinct (map fst obj) \<Longrightarrow> distinct (map fst (objEntries obj))"
proof -
  assume "distinct (map fst obj)"
  moreover have "mset (map fst (objEntries obj)) = mset (map fst obj)"
    by (simp add: mset_objEntries)
  ultimately show ?thesis using mset_eq_imp_distinct_iff by blast
qed

lemma distinct_sort_names:
  "distinct (map groupName gs) \<Longrightarrow> distinct (map groupName (sort_key f gs))"
proof -
  assume "distinct (map groupName gs)"
  moreover have "mset (map groupName (sort_key f gs)) = mset (map groupName gs)"
    by simp
  ultimately show ?thesis using mset_eq_imp_distinct_iff by blast
qed

lemma groupsArray_all_num:
  assumes "list_all (\<lambda>h. blockId h \<notin> set objectPrototypeKeys) outs"
  shows "list_all (\<lambda>g. isNum (distance g)) (groupsArray ds (groupsByBlockName outs))"
proof -
  have "isNum (groupDistance ds (snd kv))" if "kv \<in> set (objEntries (groupsByBlockName outs))" for kv
  proof -
    from that have "kv \<in> set (groupsByBlockName outs)"
      by (simp add: set_objEntries)
    then have "set (snd kv) \<subseteq> set outs" by (auto simp: groupsByBlockName_def)
    with assms have "list_all (\<lambda>h. blockId h \<notin> set objectPrototypeKeys) (snd kv)"
      by (auto simp: list_all_iff)
    then show ?thesis by (rule groupDistance_num)
  qed
  then show ?thesis by (simp add: groupsArray_def list_all_iff)
qed

lemma groupedOutputs_returns:
  assumes dist: "computeDistances blocks edges = Inr ds"
    and names: "list_all (\<lambda>h. blockName h \<notin> set objectPrototypeKeys) outs"
    and ids: "list_all (\<lambda>h. blockId h \<notin> set objectPrototypeKeys) outs"
  shows "groupedOutputs blocks edges outs =
           Returns (map (\<lambda>g. (groupName g, groupOutputs g))
                      (sort_key (\<lambda>g. sortKey (distance g))
                         (groupsArray ds (groupsByBlockName outs))))"
proof -
  let ?gs = "groupsArray ds (groupsByBlockName outs)"
  have s: "sortByDistance ?gs = Some (sort_key (\<lambda>g. sortKey (distance g)) ?gs)"
    using groupsArray_all_num[OF ids] by (simp add: sortByDistance_def)
  have "distinct (map groupName ?gs)"
    by (simp add: groupsArray_names distinct_objEntries_keys distinct_groupsByBlockName)
  then have "distinct (map groupName (sort_key (\<lambda>g. sortKey (distance g)) ?gs))"
    by (rule distinct_sort_names)
  then have "foldl (\<lambda>acc g. AList.update (groupName g) (groupOutputs g) acc) []
               (sort_key (\<lambda>g. sortKey (distance g)) ?gs)
             = map (\<lambda>g. (groupName g, groupOutputs g)) (sort_key (\<lambda>g. sortKey (distance g)) ?gs)"
    using foldl_update_distinct[of "sort_key (\<lambda>g. sortKey (distance g)) ?gs" "[]"] by simp
  then show ?thesis
    by (simp add: groupedOutputs_def dist groupByName_groups[OF names] s)
qed

lemma mset_groups_step:
  "k \<notin> set ks \<Longrightarrow>
     filter_mset (\<lambda>x. f x = k) M + filter_mset (\<lambda>x. f x \<in> set ks) M
       = filter_mset (\<lambda>x. f x = k \<or> f x \<in> set ks) M"
  by (induction M) auto

lemma mset_groups:
  "distinct ks \<Longrightarrow>
     mset (concat (map (\<lambda>k. filter (\<lambda>x. f x = k) xs) ks)) = mset (filter (\<lambda>x. f x \<in> set ks) xs)"
  by (induction ks) (auto simp: mset_groups_step)

lemma mset_groupsByBlockName:
  "mset (concat (map snd (groupsByBlockName outs))) = mset outs"
proof -
  have "mset (concat (map snd (groupsByBlockName outs)))
      = mset (concat (map (\<lambda>k. filter (\<lambda>x. blockName x = k) outs) (firstOccurrences (map blockName outs))))"
    by (simp add: groupsByBlockName_def comp_def)
  also have "\<dots> = mset (filter (\<lambda>x. blockName x \<in> set (firstOccurrences (map blockName outs))) outs)"
    by (rule mset_groups) simp
  also have "\<dots> = mset outs" by simp
  finally show ?thesis .
qed

lemma mset_concat_perm:
  "mset xs = mset ys \<Longrightarrow> mset (concat (map snd xs)) = mset (concat (map snd ys))"
proof -
  assume "mset xs = mset ys"
  then have "image_mset (\<lambda>kv. mset (snd kv)) (mset xs) = image_mset (\<lambda>kv. mset (snd kv)) (mset ys)"
    by simp
  then have "sum_mset (image_mset (\<lambda>kv. mset (snd kv)) (mset xs))
      = sum_mset (image_mset (\<lambda>kv. mset (snd kv)) (mset ys))" by simp
  then show ?thesis
    by (simp add: mset_concat comp_def sum_mset_sum_list[symmetric] del: sum_mset_sum_list)
qed


lemma blockOutputs_numberedBlock: "blockOutputs numberedBlock = [numberedHandle]"
  by (simp add: blockOutputs_def numberedBlock_def numberedHandle_def normalizeName_def
        isWhitespace_def toLowerChar_def upperCaseChars_def lowerCaseChars_def Let_def)

lemma blockOutputs_constructorBlock: "blockOutputs constructorBlock = [constructorHandle]"
  by (simp add: blockOutputs_def constructorBlock_def constructorHandle_def normalizeName_def
        isWhitespace_def toLowerChar_def upperCaseChars_def lowerCaseChars_def Let_def)

lemma blockOutputs_toStringBlock: "blockOutputs (toStringBlock i) = [toStringHandle i]"
  by (simp add: blockOutputs_def toStringBlock_def toStringHandle_def normalizeName_def
        isWhitespace_def toLowerChar_def upperCaseChars_def lowerCaseChars_def Let_def)

lemma find_starter_example:
  "find (\<lambda>b. block_type b = ''starter'') (startBlock # bs) = Some startBlock"
  by (simp add: startBlock_def)

lemma example_distances:
  "computeDistances (startBlock # bs) exampleEdges = Inr [(''start'', 0), (''agent1'', 1)]"
  by (simp add: computeDistances_def find_starter_example)
     (simp add: startBlock_def exampleEdges_def objGet_def objectPrototypeKeys_def objAssign_def
        del: One_nat_def)

lemma isArrayIndex_examples: "isArrayIndex ''7''" "\<not> isArrayIndex ''Agent 1''"
  by (simp_all add: isArrayIndex_def isDigit_def natOfDigits_def)

lemma numbered_groups:
  "groupByName [agentHandle, numberedHandle] []
     = Inr [(''Agent 1'', [agentHandle]), (''7'', [numberedHandle])]"
  by (simp add: agentHandle_def numberedHandle_def objGet_def objectPrototypeKeys_def)

lemma numbered_entries:
  "objEntries [(''Agent 1'', [agentHandle]), (''7'', [numberedHandle])]
     = [(''7'', [numberedHandle]), (''Agent 1'', [agentHandle])]"
  by (simp add: objEntries_def isArrayIndex_examples)

lemma numbered_distances:
  "groupDistance [(''start'', 0), (''agent1'', 1)] [agentHandle] = Num 1"
  "groupDistance [(''start'', 0), (''agent1'', 1)] [numberedHandle] = Num 0"
  by (simp_all add: groupDistance_def agentHandle_def numberedHandle_def objGet_def
        objectPrototypeKeys_def del: One_nat_def)

lemma numbered_sorted:
  "sortByDistance (groupsArray [(''start'', 0), (''agent1'', 1)]
       [(''Agent 1'', [agentHandle]), (''7'', [numberedHandle])])
     = Some [\<lparr>groupName = ''Agent 1'', groupOutputs = [agentHandle], distance = Num 1\<rparr>,
             \<lparr>groupName = ''7'', groupOutputs = [numberedHandle], distance = Num 0\<rparr>]"
  by (simp add: groupsArray_def numbered_entries numbered_distances sortByDistance_def
        del: One_nat_def)

text \<open>
  The example of the specification: one handle with the path \<^verbatim>\<open>response.text\<close>, in
  the one group of the agent block, which is one edge away from the starter block.
\<close>

lemma groupedOutputs_example:
  "groupedOutputs [startBlock, agentBlock] exampleEdges
       (workflowOutputs (Some ''wf'') [startBlock, agentBlock])
     = Returns [(''Agent 1'', [agentHandle])]"
proof -
  have g: "groupByName [agentHandle] [] = Inr [(''Agent 1'', [agentHandle])]"
    by (simp add: agentHandle_def objGet_def objectPrototypeKeys_def)
  have e: "objEntries [(''Agent 1'', [agentHandle])] = [(''Agent 1'', [agentHandle])]"
    by (simp add: objEntries_def isArrayIndex_examples)
  have "sortByDistance (groupsArray [(''start'', 0), (''agent1'', 1)]
          [(''Agent 1'', [agentHandle])])
      = Some [\<lparr>groupName = ''Agent 1'', groupOutputs = [agentHandle], distance = Num 1\<rparr>]"
    by (simp add: groupsArray_def e numbered_distances sortByDistance_def del: One_nat_def)
  then show ?thesis
    by (simp add: groupedOutputs_def workflowOutputs_example example_distances g
          del: One_nat_def groupByName.simps)
qed

text \<open>
  Claim C2 fails on the code for a block whose name is an array index. The agent block
  is one edge away from the starter block and the block named \<^verbatim>\<open>7\<close> is unreachable
  (distance zero). The array is sorted with the agent group first, but the record built
  from it enumerates the key \<^verbatim>\<open>7\<close> first: the group at distance zero is rendered before
  the group at distance one.
\<close>

theorem distance_order_broken_by_index_name:
  "workflowOutputs (Some ''wf'') [startBlock, agentBlock, numberedBlock]
     = [agentHandle, numberedHandle]
   \<and> groupDistance [(''start'', 0), (''agent1'', 1)] [agentHandle] = Num 1
   \<and> groupDistance [(''start'', 0), (''agent1'', 1)] [numberedHandle] = Num 0
   \<and> groupedOutputs [startBlock, agentBlock, numberedBlock] exampleEdges
        [agentHandle, numberedHandle]
     = Returns [(''Agent 1'', [agentHandle]), (''7'', [numberedHandle])]
   \<and> objEntries [(''Agent 1'', [agentHandle]), (''7'', [numberedHandle])]
     = [(''7'', [numberedHandle]), (''Agent 1'', [agentHandle])]"
proof -
  have "workflowOutputs (Some ''wf'') [startBlock, agentBlock, numberedBlock]
     = [agentHandle, numberedHandle]"
    by (simp add: workflowOutputs_def blockOutputs_startBlock blockOutputs_agentBlock
          blockOutputs_numberedBlock)
  moreover have "groupedOutputs [startBlock, agentBlock, numberedBlock] exampleEdges
        [agentHandle, numberedHandle]
     = Returns [(''Agent 1'', [agentHandle]), (''7'', [numberedHandle])]"
    by (simp add: groupedOutputs_def example_distances numbered_groups numbered_sorted
          del: One_nat_def groupByName.simps)
  ultimately show ?thesis by (simp only: numbered_distances numbered_entries simp_thms)
qed

text \<open>
  Claim C4 fails on the code for a block whose name is a property inherited from the
  prototype: the block named \<^verbatim>\<open>constructor\<close> has one handle, and grouping it throws a
  TypeError in place of returning groups that hold it.
\<close>

theorem grouping_throws_on_inherited_name:
  "workflowOutputs (Some ''wf'') [startBlock, constructorBlock] = [constructorHandle]
   \<and> groupByName [constructorHandle] [] = Inl TypeError
   \<and> groupedOutputs [startBlock, constructorBlock] [] [constructorHandle] = Throws TypeError"
proof -
  have g: "groupByName [constructorHandle] [] = Inl TypeError"
    by (simp add: constructorHandle_def objGet_def objectPrototypeKeys_def)
  have "computeDistances [startBlock, constructorBlock] [] = Inr [(''start'', 0)]"
    by (simp add: computeDistances_def find_starter_example)
       (simp add: startBlock_def objGet_def objectPrototypeKeys_def objAssign_def)
  then have "groupedOutputs [startBlock, constructorBlock] [] [constructorHandle] = Throws TypeError"
    by (simp add: groupedOutputs_def g del: groupByName.simps)
  moreover have "workflowOutputs (Some ''wf'') [startBlock, constructorBlock] = [constructorHandle]"
    by (simp add: workflowOutputs_def blockOutputs_startBlock blockOutputs_constructorBlock)
  ultimately show ?thesis using g by simp
qed

text \<open>
  Claim C10 fails on the code for two blocks that share a name inherited from the
  prototype: the two blocks named \<^verbatim>\<open>toString\<close> have one handle each, and no merged
  group is built, as the grouping throws a TypeError.
\<close>

theorem same_name_merge_throws_on_inherited_name:
  "workflowOutputs (Some ''wf'') [toStringBlock ''t1'', toStringBlock ''t2'']
     = [toStringHandle ''t1'', toStringHandle ''t2'']
   \<and> groupedOutputs [toStringBlock ''t1'', toStringBlock ''t2''] []
        [toStringHandle ''t1'', toStringHandle ''t2''] = Throws TypeError"
proof -
  have g: "groupByName [toStringHandle ''t1'', toStringHandle ''t2''] [] = Inl TypeError"
    by (simp add: toStringHandle_def objGet_def objectPrototypeKeys_def)
  have "computeDistances [toStringBlock ''t1'', toStringBlock ''t2''] [] = Inr []"
    by (simp add: computeDistances_def toStringBlock_def)
  then have "groupedOutputs [toStringBlock ''t1'', toStringBlock ''t2''] []
        [toStringHandle ''t1'', toStringHandle ''t2''] = Throws TypeError"
    by (simp add: groupedOutputs_def g del: groupByName.simps)
  moreover have "workflowOutputs (Some ''wf'') [toStringBlock ''t1'', toStringBlock ''t2'']
     = [toStringHandle ''t1'', toStringHandle ''t2'']"
    by (simp add: workflowOutputs_def blockOutputs_toStringBlock)
  ultimately show ?thesis by simp
qed


lemma groupsArray_entries:
  "map (\<lambda>g. (groupName g, groupOutputs g)) (groupsArray ds groups) = objEntries groups"
  by (simp add: groupsArray_def comp_def)

text \<open>
  Outside these names the three properties hold. When no block name is an inherited
  property, grouping returns the groups of the specification, and they hold the handles
  given, each once.
\<close>

lemma grouping_preserves_handles:
  assumes "list_all (\<lambda>h. blockName h \<notin> set objectPrototypeKeys) outs"
  shows "groupByName outs [] = Inr (groupsByBlockName outs)
       \<and> mset (concat (map snd (groupsByBlockName outs))) = mset outs
       \<and> mset (concat (map snd (objEntries (groupsByBlockName outs)))) = mset outs"
  using groupByName_groups[OF assms] mset_groupsByBlockName[of outs]
    mset_concat_perm[OF mset_objEntries[of "groupsByBlockName outs"]]
  by simp

lemma groupedOutputs_preserves_handles:
  assumes "computeDistances blocks edges = Inr ds"
    and "list_all (\<lambda>h. blockName h \<notin> set objectPrototypeKeys) outs"
    and "list_all (\<lambda>h. blockId h \<notin> set objectPrototypeKeys) outs"
  shows "\<exists>r. groupedOutputs blocks edges outs = Returns r
           \<and> mset (concat (map snd (objEntries r))) = mset outs"
proof -
  let ?gs = "groupsArray ds (groupsByBlockName outs)"
  let ?r = "map (\<lambda>g. (groupName g, groupOutputs g)) (sort_key (\<lambda>g. sortKey (distance g)) ?gs)"
  have "mset ?r = image_mset (\<lambda>g. (groupName g, groupOutputs g)) (mset ?gs)" by simp
  also have "\<dots> = mset (map (\<lambda>g. (groupName g, groupOutputs g)) ?gs)" by simp
  also have "\<dots> = mset (groupsByBlockName outs)"
    by (simp only: groupsArray_entries mset_objEntries)
  finally have "mset (objEntries ?r) = mset (groupsByBlockName outs)"
    by (simp only: mset_objEntries)
  from mset_concat_perm[OF this] mset_groupsByBlockName[of outs]
  have "mset (concat (map snd (objEntries ?r))) = mset outs" by simp
  with groupedOutputs_returns[OF assms] show ?thesis by blast
qed

text \<open>
  Every group holds all the handles of its name, whichever blocks they come from, and
  its distance is read from the block of its first handle alone.
\<close>

lemma merged_group_distance:
  assumes "list_all (\<lambda>h. blockName h \<notin> set objectPrototypeKeys) outs"
    and "g \<in> set (groupsArray ds (groupsByBlockName outs))"
  shows "groupByName outs [] = Inr (groupsByBlockName outs)
       \<and> groupOutputs g = filter (\<lambda>h. blockName h = groupName g) outs
       \<and> groupOutputs g \<noteq> []
       \<and> distance g = groupDistance ds [hd (groupOutputs g)]"
proof -
  from assms(2) obtain kv where kv: "kv \<in> set (groupsByBlockName outs)"
    and g: "g = \<lparr>groupName = fst kv, groupOutputs = snd kv,
                 distance = groupDistance ds (snd kv)\<rparr>"
    by (auto simp: groupsArray_def set_objEntries)
  from kv have n: "fst kv \<in> blockName ` set outs"
    and f: "snd kv = filter (\<lambda>h. blockName h = fst kv) outs"
    by (auto simp: groupsByBlockName_def)
  from n f have ne: "snd kv \<noteq> []" by (auto simp: filter_empty_conv)
  then obtain first rest where "snd kv = first # rest" by (cases "snd kv") auto
  then have "groupDistance ds (snd kv) = groupDistance ds [hd (snd kv)]"
    using groupDistance_first[of ds first rest] by simp
  with g f ne groupByName_groups[OF assms(1)] show ?thesis by simp
qed

text \<open>
  When moreover no block name is an array index (and no block identifier is an inherited
  property), the rendered groups are the groups in discovery order, sorted by descending
  distance, and the sort is stable: groups of one distance keep their discovery order.
\<close>

lemma groupedOutputs_order:
  assumes "computeDistances blocks edges = Inr ds"
    and "list_all (\<lambda>h. blockName h \<notin> set objectPrototypeKeys) outs"
    and "list_all (\<lambda>h. blockId h \<notin> set objectPrototypeKeys) outs"
    and "list_all (\<lambda>h. \<not> isArrayIndex (blockName h)) outs"
  shows "\<exists>sortedArray.
           groupedOutputs blocks edges outs
             = Returns (map (\<lambda>g. (groupName g, groupOutputs g)) sortedArray)
         \<and> objEntries (map (\<lambda>g. (groupName g, groupOutputs g)) sortedArray)
             = map (\<lambda>g. (groupName g, groupOutputs g)) sortedArray
         \<and> sorted (map (\<lambda>g. sortKey (distance g)) sortedArray)
         \<and> (\<forall>k. filter (\<lambda>g. sortKey (distance g) = k) sortedArray
                 = filter (\<lambda>g. sortKey (distance g) = k)
                     (map (\<lambda>kv. \<lparr>groupName = fst kv, groupOutputs = snd kv,
                                  distance = groupDistance ds (snd kv)\<rparr>)
                        (groupsByBlockName outs)))"
proof -
  let ?gs = "groupsArray ds (groupsByBlockName outs)"
  let ?sorted = "sort_key (\<lambda>g. sortKey (distance g)) ?gs"
  let ?r = "map (\<lambda>g. (groupName g, groupOutputs g)) ?sorted"
  have noidx: "list_all (\<lambda>kv. \<not> isArrayIndex (fst kv)) (groupsByBlockName outs)"
    using assms(4) by (auto simp: groupsByBlockName_def list_all_iff)
  then have e: "objEntries (groupsByBlockName outs) = groupsByBlockName outs"
    by (rule objEntries_no_index)
  have "set ?r = set (groupsByBlockName outs)"
  proof -
    have "set ?r = (\<lambda>g. (groupName g, groupOutputs g)) ` set ?gs" by simp
    also have "\<dots> = set (map (\<lambda>g. (groupName g, groupOutputs g)) ?gs)" by simp
    also have "\<dots> = set (groupsByBlockName outs)"
      by (simp only: groupsArray_entries set_objEntries)
    finally show ?thesis .
  qed
  with noidx have "list_all (\<lambda>kv. \<not> isArrayIndex (fst kv)) ?r"
    by (simp only: list_all_iff)
  then have "objEntries ?r = ?r" by (rule objEntries_no_index)
  moreover have "sorted (map (\<lambda>g. sortKey (distance g)) ?sorted)" by simp
  moreover have "?gs = map (\<lambda>kv. \<lparr>groupName = fst kv, groupOutputs = snd kv,
                                  distance = groupDistance ds (snd kv)\<rparr>)
                        (groupsByBlockName outs)"
    by (simp add: groupsArray_def e)
  then have "\<forall>k. filter (\<lambda>g. sortKey (distance g) = k) ?sorted
                 = filter (\<lambda>g. sortKey (distance g) = k)
                     (map (\<lambda>kv. \<lparr>groupName = fst kv, groupOutputs = snd kv,
                                  distance = groupDistance ds (snd kv)\<rparr>)
                        (groupsByBlockName outs))"
    by (simp only: sort_key_stable simp_thms)
  ultimately show ?thesis using groupedOutputs_returns[OF assms(1-3)] by blast
qed

section \<open>Properties of the settings navigation\<close>


lemma navigationItems_dev:
  "map item_id (navigationItems True t) = [General, Environment, Account, Credentials, Apikeys]"
  by (simp add: navigationItems_def allNavigationItems_def keepItem_def)

lemma navigationItems_no_team:
  "map item_id (navigationItems False (Some False))
     = [General, Environment, Account, Credentials, Apikeys, Subscription]"
  "map item_id (navigationItems False None)
     = [General, Environment, Account, Credentials, Apikeys, Subscription]"
  by (simp_all add: navigationItems_def allNavigationItems_def keepItem_def)

lemma navigationItems_team: "navigationItems False (Some True) = allNavigationItems"
  by (simp add: navigationItems_def allNavigationItems_def keepItem_def)


section \<open>Properties of the selected output\<close>

lemma find_handleId:
  "find (\<lambda>h. handleId h = sel) outs = None \<longleftrightarrow> sel \<notin> handleId ` set outs"
  by (auto simp: find_None_iff)

text \<open>
  Claim C8. For the handles of a workflow, the display name of the selected output is
  the placeholder when nothing is selected or the selected identifier is the identifier
  of no handle, and it is the label of the matching handle (the first one \<^verbatim>\<open>find\<close>
  meets) when the identifier is present. Every case returns a string; none raises.
\<close>

theorem selected_display_name:
  "selectedOutputDisplayName None (workflowOutputs w blocks) placeholder = placeholder
   \<and> (sel \<notin> handleId ` set (workflowOutputs w blocks) \<longrightarrow>
        selectedOutputDisplayName (Some sel) (workflowOutputs w blocks) placeholder
          = placeholder)
   \<and> (sel \<in> handleId ` set (workflowOutputs w blocks) \<longrightarrow>
        (\<exists>h. find (\<lambda>h. handleId h = sel) (workflowOutputs w blocks) = Some h
           \<and> selectedOutputDisplayName (Some sel) (workflowOutputs w blocks) placeholder
               = label h))"
proof (intro conjI impI)
  show "selectedOutputDisplayName None (workflowOutputs w blocks) placeholder = placeholder"
    by (simp add: selectedOutputDisplayName_def)
next
  assume "sel \<notin> handleId ` set (workflowOutputs w blocks)"
  then have "find (\<lambda>h. handleId h = sel) (workflowOutputs w blocks) = None"
    by (simp add: find_handleId)
  then show "selectedOutputDisplayName (Some sel) (workflowOutputs w blocks) placeholder
      = placeholder"
    by (simp add: selectedOutputDisplayName_def)
next
  assume "sel \<in> handleId ` set (workflowOutputs w blocks)"
  then obtain h where h: "find (\<lambda>h. handleId h = sel) (workflowOutputs w blocks) = Some h"
    using find_handleId[of sel "workflowOutputs w blocks"]
    by (cases "find (\<lambda>h. handleId h = sel) (workflowOutputs w blocks)") auto
  then have mem: "h \<in> set (workflowOutputs w blocks)" and id: "handleId h = sel"
    by (auto simp: find_Some_iff in_set_conv_nth)
  from workflowOutputs_fields(1)[OF mem] id have "sel \<noteq> []" by auto
  with h workflowOutputs_fields(2)[OF mem]
  have "selectedOutputDisplayName (Some sel) (workflowOutputs w blocks) placeholder = label h"
    by (simp add: selectedOutputDisplayName_def)
  with h show "\<exists>h. find (\<lambda>h. handleId h = sel) (workflowOutputs w blocks) = Some h
      \<and> selectedOutputDisplayName (Some sel) (workflowOutputs w blocks) placeholder = label h"
    by blast
qed

theorem selected_display_name_witness:
  "''agent1_response.text'' \<in> handleId ` set (workflowOutputs (Some ''wf'') [startBlock, agentBlock])
   \<and> selectedOutputDisplayName (Some ''agent1_response.text'')
        (workflowOutputs (Some ''wf'') [startBlock, agentBlock]) ''Select output source''
       = ''agent1.response.text''
   \<and> ''start_response.input'' \<notin> handleId ` set (workflowOutputs (Some ''wf'') [startBlock, agentBlock])
   \<and> selectedOutputDisplayName (Some ''start_response.input'')
        (workflowOutputs (Some ''wf'') [startBlock, agentBlock]) ''Select output source''
       = ''Select output source''"
  using selected_display_name[of "Some ''wf''" "[startBlock, agentBlock]"
          "''Select output source''" "''agent1_response.text''"]
        selected_display_name[of "Some ''wf''" "[startBlock, agentBlock]"
          "''Select output source''" "''start_response.input''"]
  by (simp add: workflowOutputs_example agentHandle_def)

end
